theory Spec2Isabelle
  imports Complex_Main "HOL-Library.Sublist" "HOL-Library.AList" "HOL-Library.Monad_Syntax"
begin

section \<open>Strings\<close>

text \<open>
  A Python \<open>str\<close> is a sequence of Unicode code points. A code point is modelled as a natural
  number and a string as a list of them, so that the Cyrillic console messages of the script
  and arbitrary signatures are covered. \<open>ascii\<close> embeds an ASCII literal.
\<close>

type_synonym codepoint = nat
type_synonym str = "codepoint list"

definition ascii :: "string \<Rightarrow> str" where
  "ascii cs = map of_char cs"

section \<open>The fragment of Python's \<open>re\<close> used by the classifier\<close>

text \<open>
  The classifier calls \<^verbatim>\<open>re.match(r'^([A-Z]+-?[A-Z]*)', signature)\<close>. The pattern is a
  sequence of items: the anchor \<^verbatim>\<open>^\<close>, and single-character atoms (a range or a literal)
  under one of the greedy quantifiers (none, \<^verbatim>\<open>?\<close>, \<^verbatim>\<open>*\<close>, \<^verbatim>\<open>+\<close>).
  \<open>re_run\<close> is the backtracking search of the \<open>re\<close> module on such a sequence: a greedy
  quantifier first tries to take one more character and falls back to taking none when the
  rest of the pattern then fails. It returns the text consumed (\<open>None\<close>: no match).
  \<open>pos\<close> is the offset in the subject, which the anchor needs.
\<close>

datatype quant = One | Opt | Star | Plus

datatype atom = Range codepoint codepoint | Lit codepoint

datatype item = Bol | Rep atom quant

fun atom_matches :: "atom \<Rightarrow> codepoint \<Rightarrow> bool" where
  "atom_matches (Range lo hi) c = (lo \<le> c \<and> c \<le> hi)"
| "atom_matches (Lit a) c = (c = a)"

fun re_run :: "item list \<Rightarrow> nat \<Rightarrow> str \<Rightarrow> str option" where
  "re_run [] pos s = Some []"
| "re_run (Bol # ps) pos s = (if pos = 0 then re_run ps pos s else None)"
| "re_run (Rep a One # ps) pos s =
     (case s of
        [] \<Rightarrow> None
      | c # cs \<Rightarrow>
          if atom_matches a c then map_option ((#) c) (re_run ps (Suc pos) cs) else None)"
| "re_run (Rep a Opt # ps) pos s =
     (case s of
        [] \<Rightarrow> re_run ps pos []
      | c # cs \<Rightarrow>
          if atom_matches a c
          then (case re_run ps (Suc pos) cs of
                  Some r \<Rightarrow> Some (c # r)
                | None \<Rightarrow> re_run ps pos s)
          else re_run ps pos s)"
| "re_run (Rep a Star # ps) pos s =
     (case s of
        [] \<Rightarrow> re_run ps pos []
      | c # cs \<Rightarrow>
          if atom_matches a c
          then (case re_run (Rep a Star # ps) (Suc pos) cs of
                  Some r \<Rightarrow> Some (c # r)
                | None \<Rightarrow> re_run ps pos s)
          else re_run ps pos s)"
| "re_run (Rep a Plus # ps) pos s =
     (case s of
        [] \<Rightarrow> None
      | c # cs \<Rightarrow>
          if atom_matches a c
          then map_option ((#) c) (re_run (Rep a Star # ps) (Suc pos) cs)
          else None)"

text \<open>\<^verbatim>\<open>re.match\<close> tries the pattern at offset 0 of the subject only.\<close>

definition re_match :: "item list \<Rightarrow> str \<Rightarrow> str option" where
  "re_match p s = re_run p 0 s"

text \<open>
  \<^verbatim>\<open>^([A-Z]+-?[A-Z]*)\<close>: without flags \<^verbatim>\<open>[A-Z]\<close> is the code points 65 to 90, and the hyphen
  is code point 45. The group encloses every consuming item of the pattern and the anchor
  consumes nothing, so \<^verbatim>\<open>match.group(1)\<close> is the whole text consumed.
\<close>

definition EVENT_TYPE_RE :: "item list" where
  "EVENT_TYPE_RE =
     [Bol,
      Rep (Range (of_char CHR ''A'') (of_char CHR ''Z'')) Plus,
      Rep (Lit (of_char CHR ''-'')) Opt,
      Rep (Range (of_char CHR ''A'') (of_char CHR ''Z'')) Star]"

section \<open>Values\<close>

text \<open>
  \<open>json\<close> is what \<^verbatim>\<open>json.load\<close> returns. A cell of the table holds such a value, or a
  date-time once \<^verbatim>\<open>pd.to_datetime\<close> has run; \<open>Missing\<close> stands for the empty cell
  (Python's \<open>None\<close>, pandas' \<open>NaN\<close> and \<open>NaT\<close>).
\<close>

datatype json =
    JNull
  | JBool bool
  | JInt int
  | JFloat real
  | JStr str
  | JArr "json list"
  | JObj "(str \<times> json) list"

record datetime =
  year :: nat
  month :: nat
  day :: nat
  hour :: nat
  minute :: nat
  second :: nat

datatype cell = Plain json | Timestamp datetime

abbreviation Missing :: cell where
  "Missing \<equiv> Plain JNull"

abbreviation Text :: "str \<Rightarrow> cell" where
  "Text s \<equiv> Plain (JStr s)"

text \<open>
  An exception is its class, as far as the \<^verbatim>\<open>except\<close> clauses of the script tell
  classes apart, and its text \<^verbatim>\<open>str(e)\<close>. \<open>OtherException\<close> is any other subclass of
  \<open>Exception\<close> (\<open>TypeError\<close>, \<open>ValueError\<close>, \<open>OSError\<close>, ...). Exceptions outside
  \<open>Exception\<close>, such as \<open>KeyboardInterrupt\<close>, are not modelled.
\<close>

datatype pyclass = FileNotFoundError | JSONDecodeError | KeyError | OtherException

datatype exn = Raised pyclass str

section \<open>The classifier\<close>

text \<open>
  \<^verbatim>\<open>
  def extract_event_type(signature):
      match = re.match(r'^([A-Z]+-?[A-Z]*)', signature)
      if match:
          return match.group(1)
      return "UNKNOWN"
  \<close>
  \<^verbatim>\<open>re.match\<close> raises \<open>TypeError\<close> on a subject that is not a string.
\<close>

definition UNKNOWN :: str where
  "UNKNOWN = ascii ''UNKNOWN''"

fun extract_event_type :: "cell \<Rightarrow> exn + str" where
  "extract_event_type (Plain (JStr signature)) =
     (case re_match EVENT_TYPE_RE signature of
        Some group1 \<Rightarrow> Inr group1
      | None \<Rightarrow> Inr UNKNOWN)"
| "extract_event_type _ =
     Inl (Raised OtherException (ascii ''expected string or bytes-like object''))"

section \<open>The table\<close>

text \<open>
  Modelled from the spec: pandas is not part of the sources. A table is its column names, in
  order, and its rows, in input order; a row maps each column to a cell. The loader turns
  every object of the \<open>events\<close> array into a row, a field of an object into a column, and a
  field an object lacks into an empty cell. An event is the fields of a parsed object in the
  order of the file, each key once. Numbers are cells by their value; which storage pandas
  picks for a column of numbers is not modelled.
\<close>

type_synonym event = "(str \<times> json) list"

type_synonym row = "(str \<times> cell) list"

record dataframe =
  columns :: "str list"
  rows :: "row list"

definition cell_at :: "row \<Rightarrow> str \<Rightarrow> cell" where
  "cell_at r c = (case map_of r c of Some v \<Rightarrow> v | None \<Rightarrow> Missing)"

definition column_names :: "event list \<Rightarrow> str list" where
  "column_names events = rev (remdups (rev (concat (map (map fst) events))))"

definition event_cell :: "event \<Rightarrow> str \<Rightarrow> cell" where
  "event_cell e c = (case map_of e c of Some v \<Rightarrow> Plain v | None \<Rightarrow> Missing)"

definition event_row :: "str list \<Rightarrow> event \<Rightarrow> row" where
  "event_row cols e = map (\<lambda>c. (c, event_cell e c)) cols"

definition DataFrame :: "event list \<Rightarrow> dataframe" where
  "DataFrame events =
     \<lparr>columns = column_names events,
      rows = map (event_row (column_names events)) events\<rparr>"

definition quoted :: "str \<Rightarrow> str" where
  "quoted k = of_char CHR 0x27 # k @ [of_char CHR 0x27]"

text \<open>
  \<^verbatim>\<open>df[c]\<close>: the column as a sequence of cells, \<open>KeyError\<close> when there is no such column.
  The text of the error is the \<open>repr\<close> of the key; the keys used here have no quote or
  escape in them.
\<close>

definition getitem :: "dataframe \<Rightarrow> str \<Rightarrow> exn + cell list" where
  "getitem df c =
     (if c \<in> set (columns df) then Inr (map (\<lambda>r. cell_at r c) (rows df))
      else Inl (Raised KeyError (quoted c)))"

text \<open>
  \<^verbatim>\<open>df[c] = values\<close>: replaces the column, or adds it after the last one. The script only
  assigns sequences computed from a column of the same table, one value for each row.
\<close>

definition setitem :: "dataframe \<Rightarrow> str \<Rightarrow> cell list \<Rightarrow> dataframe" where
  "setitem df c values =
     \<lparr>columns = (if c \<in> set (columns df) then columns df else columns df @ [c]),
      rows = map (\<lambda>(r, v). AList.update c v r) (zip (rows df) values)\<rparr>"

text \<open>
  \<^verbatim>\<open>Series.apply(f)\<close> and the element-wise conversions: \<open>f\<close> on each cell in order; the
  first exception ends the call.
\<close>

fun traverse :: "('a \<Rightarrow> exn + 'b) \<Rightarrow> 'a list \<Rightarrow> exn + 'b list" where
  "traverse f [] = Inr []"
| "traverse f (x # xs) =
     (case f x of
        Inl e \<Rightarrow> Inl e
      | Inr y \<Rightarrow> (case traverse f xs of Inl e \<Rightarrow> Inl e | Inr ys \<Rightarrow> Inr (y # ys)))"

section \<open>Frequency count\<close>

text \<open>
  Modelled from the spec: \<^verbatim>\<open>Series.value_counts()\<close> is not part of the sources. ``Computes
  a frequency count of the column, producing a mapping ordered from most to least
  frequent'': empty cells are not counted, every other value gets the number of its
  occurrences, values are met in row order and the sort by descending count is stable.
\<close>

fun tally :: "cell \<Rightarrow> (cell \<times> nat) list \<Rightarrow> (cell \<times> nat) list" where
  "tally v [] = [(v, 1)]"
| "tally v ((k, n) # kns) = (if k = v then (k, Suc n) # kns else (k, n) # tally v kns)"

definition value_counts :: "cell list \<Rightarrow> (cell \<times> nat) list" where
  "value_counts xs =
     sort_key (\<lambda>(v, n). - int n)
       (foldl (\<lambda>counts v. tally v counts) [] (filter (\<lambda>v. v \<noteq> Missing) xs))"

section \<open>Date-times\<close>










section \<open>The CSV file\<close>





section \<open>The environment of a run\<close>

text \<open>
  What \<^verbatim>\<open>open\<close> and \<^verbatim>\<open>json.load\<close> make of a file name: no such file (with the text
  of the error); a file that cannot be read or decoded (an \<open>OSError\<close> other than
  \<open>FileNotFoundError\<close>, or a \<open>UnicodeDecodeError\<close>); text that is not JSON; a JSON
  value that is not an object (indexing it with \<^verbatim>\<open>'events'\<close> is a \<open>TypeError\<close>); an object
  without the key \<open>events\<close>; an object whose \<open>events\<close> is an array of objects. Other
  values of \<open>events\<close> are outside the model.
\<close>

datatype input_file =
    Absent str
  | Unreadable str
  | Malformed str
  | NotAnObject str
  | NoEvents
  | Events "event list"

text \<open>
  The drawing and file-writing calls of matplotlib, seaborn and pandas are not modelled;
  each group of them either passes or raises an exception that the environment chooses.
\<close>

datatype stage = BarAndPie | HourlyLines | SeabornFigure | SeabornCharts | CsvWrite

record env =
  files :: "str \<Rightarrow> input_file"
  fault :: "stage \<Rightarrow> exn option"

section \<open>The script\<close>

text \<open>
  \<^verbatim>\<open>
  def load_json_data(filename):
      with open(filename, 'r', encoding='utf-8') as f:
          data = json.load(f)
      return pd.DataFrame(data['events'])
  \<close>
\<close>

definition load_json_data :: "env \<Rightarrow> str \<Rightarrow> exn + dataframe" where
  "load_json_data world filename =
     (case files world filename of
        Absent why \<Rightarrow> Inl (Raised FileNotFoundError why)
      | Unreadable why \<Rightarrow> Inl (Raised OtherException why)
      | Malformed why \<Rightarrow> Inl (Raised JSONDecodeError why)
      | NotAnObject why \<Rightarrow> Inl (Raised OtherException why)
      | NoEvents \<Rightarrow> Inl (Raised KeyError (quoted (ascii ''events'')))
      | Events events \<Rightarrow> Inr (DataFrame events))"

text \<open>
  \<^verbatim>\<open>
  def analyze_security_events(filename):
      df = load_json_data(filename)
      df['event_type'] = df['signature'].apply(extract_event_type)
      event_counts = df['event_type'].value_counts()
      return df, event_counts
  \<close>
  The \<^verbatim>\<open>print\<close> calls of this function (the head of the table, the counts, two example
  signatures for each type) are left out.
\<close>

definition analyze_security_events ::
  "env \<Rightarrow> str \<Rightarrow> exn + dataframe \<times> (cell \<times> nat) list" where
  "analyze_security_events world filename =
     (case load_json_data world filename of
        Inl e \<Rightarrow> Inl e
      | Inr df \<Rightarrow>
     (case getitem df (ascii ''signature'') of
        Inl e \<Rightarrow> Inl e
      | Inr signatures \<Rightarrow>
     (case traverse extract_event_type signatures of
        Inl e \<Rightarrow> Inl e
      | Inr types \<Rightarrow>
          let df = setitem df (ascii ''event_type'') (map Text types) in
     (case getitem df (ascii ''event_type'') of
        Inl e \<Rightarrow> Inl e
      | Inr event_type \<Rightarrow> Inr (df, value_counts event_type)))))"



subsection \<open>Console messages\<close>















subsection \<open>The entry point\<close>






section \<open>Example inputs\<close>

text \<open>
  The two records of the specification's example, with one additional field; and the same
  array with a third record that has no \<open>timestamp\<close>.
\<close>

definition portscan_event :: event where
  "portscan_event =
     [(ascii ''signature'', JStr (ascii ''PORTSCAN detected on port 22'')),
      (ascii ''timestamp'', JStr (ascii ''2024-01-01T03:15:00'')),
      (ascii ''port'', JInt 22)]"

definition injection_event :: event where
  "injection_event =
     [(ascii ''signature'', JStr (ascii ''SQL-INJECTION attempt'')),
      (ascii ''timestamp'', JStr (ascii ''2024-01-01T03:45:00'')),
      (ascii ''port'', JInt 443)]"


text \<open>
  A run in which \<^verbatim>\<open>events.json\<close> is \<open>file\<close>, no other file exists, and no drawing or
  writing call fails.
\<close>

definition world_with :: "input_file \<Rightarrow> env" where
  "world_with file =
     \<lparr>files = (\<lambda>name. if name = ascii ''events.json'' then file
                       else Absent (ascii ''No such file or directory'')),
      fault = (\<lambda>stage. None)\<rparr>"


section \<open>The classifier's contract in the words of the specification\<close>

text \<open>An uppercase letter is one of \<open>A\<close> to \<open>Z\<close>, the letters the examples use.\<close>

definition is_upper :: "codepoint \<Rightarrow> bool" where
  "is_upper c = (of_char CHR ''A'' \<le> c \<and> c \<le> of_char CHR ''Z'')"

definition hyphen :: codepoint where
  "hyphen = of_char CHR ''-''"

text \<open>
  ``One or more uppercase letters, optionally followed by a hyphen and more uppercase
  letters'': the text \<open>p\<close> as a whole has this shape. After the hyphen, ``more'' letters may
  be none, as in the run \<open>AB-\<close> that the specification's edge cases name.
\<close>

definition spec_event_prefix :: "str \<Rightarrow> bool" where
  "spec_event_prefix p =
     (let letters = takeWhile is_upper p; rest = dropWhile is_upper p
      in letters \<noteq> [] \<and> (rest = [] \<or> (hd rest = hyphen \<and> list_all is_upper (tl rest))))"

text \<open>The longest prefix of at most \<open>n\<close> characters of \<open>s\<close> that satisfies \<open>P\<close>.\<close>

primrec longest_upto :: "(str \<Rightarrow> bool) \<Rightarrow> str \<Rightarrow> nat \<Rightarrow> str option" where
  "longest_upto P s 0 = (if P [] then Some [] else None)"
| "longest_upto P s (Suc n) =
     (if P (take (Suc n) s) then Some (take (Suc n) s) else longest_upto P s n)"

text \<open>``The leading run matching the pattern'': the longest prefix of that shape.\<close>

definition spec_leading_run :: "str \<Rightarrow> str option" where
  "spec_leading_run s = longest_upto spec_event_prefix s (length s)"

section \<open>Auxiliary notions of the proofs\<close>

text \<open>
  The greedy search never has to backtrack on this pattern: it takes the longest run of
  uppercase letters, then one hyphen if there is one, then again the longest run of
  uppercase letters. \<open>greedy_tail\<close> is what it takes after the first letter.
\<close>

definition greedy_tail :: "str \<Rightarrow> str" where
  "greedy_tail cs =
     takeWhile is_upper cs @
     (case dropWhile is_upper cs of
        [] \<Rightarrow> []
      | d # ds \<Rightarrow> if d = hyphen then hyphen # takeWhile is_upper ds else [])"


section \<open>The pattern, solved\<close>

lemma upper_range: "atom_matches (Range (of_char CHR ''A'') (of_char CHR ''Z'')) = is_upper"
  by (simp add: fun_eq_iff is_upper_def)

lemma hyphen_not_upper: "\<not> is_upper hyphen"
  by (simp add: is_upper_def hyphen_def)

lemma re_run_star: "re_run [Rep a Star] pos s = Some (takeWhile (atom_matches a) s)"
  by (induction s arbitrary: pos) auto

lemma re_run_opt_star:
  "re_run [Rep (Lit h) Opt, Rep a Star] pos s =
     Some (case s of
             [] \<Rightarrow> []
           | c # cs \<Rightarrow>
               if c = h then h # takeWhile (atom_matches a) cs
               else takeWhile (atom_matches a) s)"
  by (cases s) (simp_all add: re_run_star del: re_run.simps(5))

lemma re_run_star_opt_star:
  assumes "\<not> atom_matches a h"
  shows "re_run [Rep a Star, Rep (Lit h) Opt, Rep a Star] pos s =
     Some (takeWhile (atom_matches a) s @
        (case dropWhile (atom_matches a) s of
           [] \<Rightarrow> []
         | c # cs \<Rightarrow> if c = h then h # takeWhile (atom_matches a) cs else []))"
  using assms
proof (induction s arbitrary: pos)
  case Nil
  show ?case by (simp add: re_run_opt_star del: re_run.simps(4))
next
  case (Cons c cs)
  show ?case
  proof (cases "atom_matches a c")
    case True
    then show ?thesis using Cons by simp
  next
    case False
    then show ?thesis using Cons.prems
      by (simp add: re_run_opt_star del: re_run.simps(4))
  qed
qed

lemma re_match_event_type:
  "re_match EVENT_TYPE_RE s =
     (case s of
        [] \<Rightarrow> None
      | c # cs \<Rightarrow> if is_upper c then Some (c # greedy_tail cs) else None)"
proof (cases s)
  case Nil
  then show ?thesis by (simp add: re_match_def EVENT_TYPE_RE_def)
next
  case (Cons c cs)
  have h: "\<not> atom_matches (Range (of_char CHR ''A'') (of_char CHR ''Z'')) (of_char CHR ''-'')"
    by simp
  have "re_run [Rep (Range (of_char CHR ''A'') (of_char CHR ''Z'')) Star,
                Rep (Lit (of_char CHR ''-'')) Opt,
                Rep (Range (of_char CHR ''A'') (of_char CHR ''Z'')) Star] (Suc 0) cs =
        Some (greedy_tail cs)"
    unfolding re_run_star_opt_star[OF h] upper_range greedy_tail_def hyphen_def ..
  then show ?thesis
    using Cons upper_range
    by (simp add: re_match_def EVENT_TYPE_RE_def del: re_run.simps(4,5) atom_matches.simps)
qed

section \<open>The leading run\<close>

lemma longest_upto_found:
  "k \<le> n \<Longrightarrow> P (take k s) \<Longrightarrow> (\<forall>j. k < j \<and> j \<le> n \<longrightarrow> \<not> P (take j s)) \<Longrightarrow>
   longest_upto P s n = Some (take k s)"
proof (induction n)
  case 0
  then show ?case by simp
next
  case (Suc n)
  show ?case
  proof (cases "k = Suc n")
    case True
    then show ?thesis using Suc.prems by simp
  next
    case False
    then have "k \<le> n" using Suc.prems by simp
    moreover have "\<not> P (take (Suc n) s)" using Suc.prems False by auto
    ultimately show ?thesis using Suc by simp
  qed
qed

lemma prefix_takeWhile:
  "prefix q s \<Longrightarrow> list_all P q \<Longrightarrow> prefix q (takeWhile P s)"
  by (auto simp: prefix_def list_all_iff)

lemma event_prefix_cases:
  assumes "spec_event_prefix q"
  shows "(q \<noteq> [] \<and> list_all is_upper q) \<or>
         (\<exists>a b. q = a @ hyphen # b \<and> a \<noteq> [] \<and> list_all is_upper a \<and> list_all is_upper b)"
proof -
  let ?a = "takeWhile is_upper q" and ?r = "dropWhile is_upper q"
  have q: "q = ?a @ ?r" by simp
  have a: "?a \<noteq> []" "list_all is_upper ?a"
    using assms by (auto simp: spec_event_prefix_def Let_def list_all_iff dest: set_takeWhileD)
  show ?thesis
  proof (cases "?r = []")
    case True
    then have "q = ?a" using q by (metis append_Nil2)
    then show ?thesis using a by metis
  next
    case False
    then have "hd ?r = hyphen" "list_all is_upper (tl ?r)"
      using assms by (auto simp: spec_event_prefix_def Let_def)
    moreover have "?r = hd ?r # tl ?r" using False by simp
    ultimately have "q = ?a @ hyphen # tl ?r" using q by metis
    then show ?thesis using a \<open>list_all is_upper (tl ?r)\<close> by blast
  qed
qed

lemma greedy_tail_all_upper: "list_all is_upper q \<Longrightarrow> prefix q s \<Longrightarrow> prefix q (greedy_tail s)"
  unfolding greedy_tail_def by (rule prefix_prefix) (rule prefix_takeWhile)

lemma greedy_tail_hyphen:
  assumes "list_all is_upper a" "list_all is_upper b"
  shows "greedy_tail (a @ hyphen # b @ t) = a @ hyphen # b @ takeWhile is_upper t"
proof -
  have "takeWhile is_upper (a @ hyphen # b @ t) = a"
    using assms hyphen_not_upper by (simp add: list_all_iff)
  moreover have "dropWhile is_upper (a @ hyphen # b @ t) = hyphen # b @ t"
    using assms hyphen_not_upper by (simp add: list_all_iff)
  moreover have "takeWhile is_upper (b @ t) = b @ takeWhile is_upper t"
    using assms by (simp add: list_all_iff)
  ultimately show ?thesis by (simp add: greedy_tail_def)
qed

lemma greedy_tail_prefix: "prefix (greedy_tail s) s"
proof -
  have "prefix (case dropWhile is_upper s of [] \<Rightarrow> []
       | d # ds \<Rightarrow> if d = hyphen then hyphen # takeWhile is_upper ds else [])
     (dropWhile is_upper s)"
  proof (cases "dropWhile is_upper s")
    case Nil
    show ?thesis unfolding Nil by simp
  next
    case (Cons d ds)
    show ?thesis unfolding Cons by (simp add: takeWhile_is_prefix)
  qed
  then have "prefix (greedy_tail s) (takeWhile is_upper s @ dropWhile is_upper s)"
    unfolding greedy_tail_def by (simp only: same_prefix_prefix)
  then show ?thesis by simp
qed

lemma greedy_event_prefix:
  assumes "is_upper c"
  shows "spec_event_prefix (c # greedy_tail cs)"
proof (cases "dropWhile is_upper cs")
  case Nil
  have "greedy_tail cs = takeWhile is_upper cs" unfolding greedy_tail_def Nil by simp
  moreover have "takeWhile is_upper (takeWhile is_upper cs) = takeWhile is_upper cs"
    by (simp add: takeWhile_idem)
  ultimately show ?thesis using assms
    by (auto simp: spec_event_prefix_def Let_def dest: set_takeWhileD)
next
  case (Cons d ds)
  show ?thesis
  proof (cases "d = hyphen")
    case True
    then have g: "greedy_tail cs = takeWhile is_upper cs @ hyphen # takeWhile is_upper ds"
      using Cons by (simp add: greedy_tail_def)
    have "takeWhile is_upper (takeWhile is_upper cs @ hyphen # takeWhile is_upper ds) = takeWhile is_upper cs"
      using hyphen_not_upper by (simp add: takeWhile_tail)
    moreover have "dropWhile is_upper (takeWhile is_upper cs @ hyphen # takeWhile is_upper ds) = hyphen # takeWhile is_upper ds"
    proof -
      have "\<And>x. x \<in> set (takeWhile is_upper cs) \<Longrightarrow> is_upper x" by (auto dest: set_takeWhileD)
      then have "dropWhile is_upper (takeWhile is_upper cs @ hyphen # takeWhile is_upper ds) =
                 dropWhile is_upper (hyphen # takeWhile is_upper ds)"
        by (rule dropWhile_append2)
      then show ?thesis using hyphen_not_upper by simp
    qed
    ultimately show ?thesis using assms g
      by (auto simp: spec_event_prefix_def Let_def list_all_iff dest: set_takeWhileD)
  next
    case False
    then have "greedy_tail cs = takeWhile is_upper cs" using Cons by (simp add: greedy_tail_def)
    moreover have "takeWhile is_upper (takeWhile is_upper cs) = takeWhile is_upper cs"
      by (simp add: takeWhile_idem)
    ultimately show ?thesis using assms
      by (auto simp: spec_event_prefix_def Let_def dest: set_takeWhileD)
  qed
qed

lemma event_prefix_below_greedy:
  assumes "spec_event_prefix q" "prefix q (c # cs)"
  shows "prefix q (c # greedy_tail cs)"
proof -
  from event_prefix_cases[OF assms(1)] show ?thesis
  proof
    assume h: "q \<noteq> [] \<and> list_all is_upper q"
    then obtain q' where q: "q = c # q'" using assms(2) by (cases q) auto
    then have "list_all is_upper q'" "prefix q' cs" using h assms(2) by auto
    then show ?thesis using q greedy_tail_all_upper by simp
  next
    assume "\<exists>a b. q = a @ hyphen # b \<and> a \<noteq> [] \<and> list_all is_upper a \<and> list_all is_upper b"
    then obtain a b where q: "q = a @ hyphen # b" and a: "a \<noteq> []" "list_all is_upper a"
      and b: "list_all is_upper b" by blast
    obtain a' where a': "a = c # a'" using a(1) q assms(2) by (cases a) auto
    then have ua: "list_all is_upper a'" using a(2) by simp
    obtain t where "c # cs = q @ t" using assms(2) by (auto simp: prefix_def)
    then have "cs = a' @ hyphen # b @ t" using q a' by simp
    then have "greedy_tail cs = a' @ hyphen # b @ takeWhile is_upper t"
      using greedy_tail_hyphen[OF ua b] by simp
    then show ?thesis using q a' by simp
  qed
qed

lemma leading_run_greedy:
  assumes "is_upper c"
  shows "spec_leading_run (c # cs) = Some (c # greedy_tail cs)"
proof -
  let ?s = "c # cs" and ?m = "c # greedy_tail cs"
  have pm: "prefix ?m ?s" using greedy_tail_prefix by simp
  then have m: "?m = take (length ?m) ?s"
    by (metis append_eq_conv_conj prefixE)
  have le: "length ?m \<le> length ?s" using pm by (rule prefix_length_le)
  have "\<forall>j. length ?m < j \<and> j \<le> length ?s \<longrightarrow> \<not> spec_event_prefix (take j ?s)"
  proof (intro allI impI notI)
    fix j assume j: "length ?m < j \<and> j \<le> length ?s" and e: "spec_event_prefix (take j ?s)"
    have "prefix (take j ?s) ?s" by (rule take_is_prefix)
    from event_prefix_below_greedy[OF e this] have "length (take j ?s) \<le> length ?m"
      by (rule prefix_length_le)
    then show False using j by simp
  qed
  moreover have "spec_event_prefix (take (length ?m) ?s)"
    using greedy_event_prefix[OF assms] m by metis
  ultimately have "longest_upto spec_event_prefix ?s (length ?s) = Some (take (length ?m) ?s)"
    using le by (intro longest_upto_found) auto
  then show ?thesis using m unfolding spec_leading_run_def by metis
qed

section \<open>Properties of the classifier\<close>

lemma greedy_tail_chars: "c \<in> set (greedy_tail cs) \<Longrightarrow> is_upper c \<or> c = hyphen"
  by (auto simp: greedy_tail_def split: list.splits if_splits dest: set_takeWhileD)

lemma count_hyphen_upper: "list_all is_upper xs \<Longrightarrow> count_list xs hyphen = 0"
  using hyphen_not_upper by (induction xs) auto

lemma greedy_tail_one_hyphen: "count_list (greedy_tail cs) hyphen \<le> 1"
proof -
  have a: "count_list (takeWhile is_upper xs) hyphen = 0" for xs
    by (rule count_hyphen_upper) (auto simp: list_all_iff dest: set_takeWhileD)
  show ?thesis
  proof (cases "dropWhile is_upper cs")
    case Nil
    show ?thesis unfolding greedy_tail_def Nil by (simp add: a)
  next
    case (Cons d ds)
    show ?thesis unfolding greedy_tail_def Cons by (simp add: a)
  qed
qed

lemma greedy_tail_all:
  assumes "list_all is_upper a" and "t = [] \<or> (\<not> is_upper (hd t) \<and> hd t \<noteq> hyphen)"
  shows "greedy_tail (a @ t) = a"
proof -
  have tw: "takeWhile is_upper t = []" using assms(2) by (cases t) auto
  have dw: "dropWhile is_upper t = t" using assms(2) by (cases t) auto
  have "takeWhile is_upper (a @ t) = a" using assms(1) tw by (simp add: list_all_iff)
  moreover have "dropWhile is_upper (a @ t) = t" using assms(1) dw by (simp add: list_all_iff)
  moreover have "(case t of [] \<Rightarrow> [] | d # ds \<Rightarrow> if d = hyphen then hyphen # takeWhile is_upper ds else []) = []"
    using assms(2) by (cases t) auto
  ultimately show ?thesis unfolding greedy_tail_def by simp
qed

lemma greedy_tail_stops:
  assumes "cs = greedy_tail cs @ t"
  shows "t = [] \<or> \<not> is_upper (hd t)"
proof (cases "dropWhile is_upper cs")
  case Nil
  have "takeWhile is_upper cs = cs" using Nil by (metis append_Nil2 takeWhile_dropWhile_id)
  then have "greedy_tail cs = cs" unfolding greedy_tail_def Nil by simp
  then show ?thesis using assms by simp
next
  case (Cons d ds)
  have nd: "\<not> is_upper d" using Cons by (metis hd_dropWhile list.sel(1) list.distinct(1))
  have cs: "cs = takeWhile is_upper cs @ d # ds" using Cons by (metis takeWhile_dropWhile_id)
  show ?thesis
  proof (cases "d = hyphen")
    case True
    then have g: "greedy_tail cs = takeWhile is_upper cs @ hyphen # takeWhile is_upper ds"
      unfolding greedy_tail_def Cons by simp
    have "takeWhile is_upper cs @ d # ds = (takeWhile is_upper cs @ hyphen # takeWhile is_upper ds) @ t"
      using assms g cs by metis
    then have "ds = takeWhile is_upper ds @ t" using True by simp
    then have "t = dropWhile is_upper ds" by (metis same_append_eq takeWhile_dropWhile_id)
    then show ?thesis by (metis hd_dropWhile)
  next
    case False
    then have g: "greedy_tail cs = takeWhile is_upper cs"
      unfolding greedy_tail_def Cons by simp
    have "takeWhile is_upper cs @ d # ds = takeWhile is_upper cs @ t"
      using assms g cs by metis
    then have "t = d # ds" by simp
    then show ?thesis using nd by simp
  qed
qed

lemma event_prefix_whole:
  assumes "spec_event_prefix (c # cs)"
  shows "is_upper c \<and> greedy_tail cs = cs"
proof -
  have u: "is_upper c" using assms by (auto simp: spec_event_prefix_def Let_def split: if_splits)
  have "prefix (c # cs) (c # greedy_tail cs)"
    using event_prefix_below_greedy[OF assms] by simp
  then have "prefix cs (greedy_tail cs)" by simp
  moreover have "prefix (greedy_tail cs) cs" by (rule greedy_tail_prefix)
  ultimately show ?thesis using u by (simp add: prefix_order.antisym)
qed

text \<open>A hyphen that no uppercase letter follows is still part of the label.\<close>

lemma trailing_hyphen_kept:
  "extract_event_type (Text (ascii ''CVE-2024-1234 exploit'')) = Inr (ascii ''CVE-'')"
  by code_simp

text \<open>
  Claim C1, as amended. For every signature that starts with an uppercase letter \<open>A\<close> to
  \<open>Z\<close>, the classifier returns the leading run of the signature in the sense of the
  pattern: the longest prefix made of one or more uppercase letters, optionally followed by
  one hyphen and the uppercase letters after it, if any. The two signatures of the
  specification give \<open>PORTSCAN\<close> and \<open>SQL-INJECTION\<close>.
\<close>

theorem extract_event_type_leading_run:
  "(is_upper c \<longrightarrow>
      (\<exists>p. spec_leading_run (c # cs) = Some p \<and> extract_event_type (Text (c # cs)) = Inr p))
   \<and> extract_event_type (Text (ascii ''PORTSCAN detected on port 22'')) = Inr (ascii ''PORTSCAN'')
   \<and> extract_event_type (Text (ascii ''SQL-INJECTION attempt'')) = Inr (ascii ''SQL-INJECTION'')"
proof (intro conjI impI)
  assume "is_upper c"
  then show "\<exists>p. spec_leading_run (c # cs) = Some p \<and> extract_event_type (Text (c # cs)) = Inr p"
    by (simp add: leading_run_greedy re_match_event_type)
next
  show "extract_event_type (Text (ascii ''PORTSCAN detected on port 22'')) = Inr (ascii ''PORTSCAN'')"
    by code_simp
next
  show "extract_event_type (Text (ascii ''SQL-INJECTION attempt'')) = Inr (ascii ''SQL-INJECTION'')"
    by code_simp
qed

theorem extract_event_type_leading_run_witness:
  "is_upper (of_char CHR ''X'')
   \<and> spec_leading_run (ascii ''XSS-STORED in comment form'') = Some (ascii ''XSS-STORED'')
   \<and> extract_event_type (Text (ascii ''XSS-STORED in comment form'')) = Inr (ascii ''XSS-STORED'')"
proof -
  have u: "is_upper (of_char CHR ''X'')" by (simp add: is_upper_def)
  have s: "ascii ''XSS-STORED in comment form'' = of_char CHR ''X'' # ascii ''SS-STORED in comment form''"
    by (simp add: ascii_def)
  from extract_event_type_leading_run[of "of_char CHR ''X''" "ascii ''SS-STORED in comment form''"] u
  obtain p where p: "spec_leading_run (ascii ''XSS-STORED in comment form'') = Some p"
    "extract_event_type (Text (ascii ''XSS-STORED in comment form'')) = Inr p"
    unfolding s by blast
  have "extract_event_type (Text (ascii ''XSS-STORED in comment form'')) = Inr (ascii ''XSS-STORED'')"
    by code_simp
  then show ?thesis using p u by simp
qed

text \<open>
  Claim C1 as stated fails on a run with more than one hyphen: of the leading run \<open>A-B-C\<close>
  the classifier returns \<open>A-B\<close>, the second hyphen ends the label.
\<close>

theorem second_hyphen_counterexample:
  "extract_event_type (Text (ascii ''A-B-C detected'')) = Inr (ascii ''A-B'')
   \<and> extract_event_type (Text (ascii ''A-B-C detected'')) \<noteq> Inr (ascii ''A-B-C'')"
  by code_simp

text \<open>
  Claim C2, as amended. When the pattern matches, the label is a non-empty prefix of the signature that
  starts with an uppercase letter, holds nothing but uppercase letters and at most one
  hyphen, and is not followed by a further uppercase letter: no digit, punctuation mark or
  other character after the run is captured. A signature that is, as a whole, uppercase
  letters optionally followed by one hyphen and more uppercase letters matches and is
  returned whole.
\<close>

theorem extract_event_type_run_only:
  "(re_match EVENT_TYPE_RE s = Some r \<longrightarrow>
      extract_event_type (Text s) = Inr r \<and> prefix r s \<and> r \<noteq> [] \<and> is_upper (hd r)
      \<and> (\<forall>c \<in> set r. is_upper c \<or> c = hyphen) \<and> count_list r hyphen \<le> 1
      \<and> (\<forall>t. s = r @ t \<longrightarrow> t = [] \<or> \<not> is_upper (hd t)))
   \<and> (spec_event_prefix s \<longrightarrow>
        re_match EVENT_TYPE_RE s = Some s \<and> extract_event_type (Text s) = Inr s)
   \<and> extract_event_type (Text (ascii ''PORT22! open'')) = Inr (ascii ''PORT'')
   \<and> extract_event_type (Text (ascii ''AB-12'')) = Inr (ascii ''AB-'')
   \<and> extract_event_type (Text (ascii ''SQL-INJECTION'')) = Inr (ascii ''SQL-INJECTION'')"
proof (intro conjI impI)
  assume m: "re_match EVENT_TYPE_RE s = Some r"
  then obtain c cs where s: "s = c # cs" and u: "is_upper c" and r: "r = c # greedy_tail cs"
    by (auto simp: re_match_event_type split: list.splits if_splits)
  show "extract_event_type (Text s) = Inr r" using m by simp
  show "prefix r s" using s r greedy_tail_prefix by simp
  show "r \<noteq> []" using r by simp
  show "is_upper (hd r)" using r u by simp
  show "\<forall>c \<in> set r. is_upper c \<or> c = hyphen" using r u greedy_tail_chars by auto
  show "count_list r hyphen \<le> 1" using r u hyphen_not_upper greedy_tail_one_hyphen[of cs] by auto
  show "\<forall>t. s = r @ t \<longrightarrow> t = [] \<or> \<not> is_upper (hd t)"
    using s r greedy_tail_stops[of cs] by auto
next
  assume e: "spec_event_prefix s"
  then obtain c cs where s: "s = c # cs"
    by (cases s) (auto simp: spec_event_prefix_def)
  with event_prefix_whole[of c cs] e have "is_upper c" "greedy_tail cs = cs" by auto
  then show "re_match EVENT_TYPE_RE s = Some s" "extract_event_type (Text s) = Inr s"
    using s by (simp_all add: re_match_event_type)
next
  show "extract_event_type (Text (ascii ''PORT22! open'')) = Inr (ascii ''PORT'')" by code_simp
  show "extract_event_type (Text (ascii ''AB-12'')) = Inr (ascii ''AB-'')" by code_simp
  show "extract_event_type (Text (ascii ''SQL-INJECTION'')) = Inr (ascii ''SQL-INJECTION'')" by code_simp
qed

theorem extract_event_type_run_only_witness:
  "re_match EVENT_TYPE_RE (ascii ''DDOS-FLOOD-7 burst'') = Some (ascii ''DDOS-FLOOD'')
   \<and> extract_event_type (Text (ascii ''DDOS-FLOOD-7 burst'')) = Inr (ascii ''DDOS-FLOOD'')
   \<and> prefix (ascii ''DDOS-FLOOD'') (ascii ''DDOS-FLOOD-7 burst'')
   \<and> spec_event_prefix (ascii ''BRUTE-FORCE'')
   \<and> extract_event_type (Text (ascii ''BRUTE-FORCE'')) = Inr (ascii ''BRUTE-FORCE'')"
proof -
  have m: "re_match EVENT_TYPE_RE (ascii ''DDOS-FLOOD-7 burst'') = Some (ascii ''DDOS-FLOOD'')"
    by code_simp
  have e: "spec_event_prefix (ascii ''BRUTE-FORCE'')"
    by code_simp
  from extract_event_type_run_only[of "ascii ''DDOS-FLOOD-7 burst''" "ascii ''DDOS-FLOOD''"] m
  have "extract_event_type (Text (ascii ''DDOS-FLOOD-7 burst'')) = Inr (ascii ''DDOS-FLOOD'')"
    "prefix (ascii ''DDOS-FLOOD'') (ascii ''DDOS-FLOOD-7 burst'')" by blast+
  moreover from extract_event_type_run_only[of "ascii ''BRUTE-FORCE''"] e
  have "extract_event_type (Text (ascii ''BRUTE-FORCE'')) = Inr (ascii ''BRUTE-FORCE'')" by blast
  ultimately show ?thesis using m e by simp
qed

text \<open>
  Claim C2 as stated fails on a signature that is a hyphen-separated uppercase run with two
  hyphens and nothing after it: it matches, and is not returned whole.
\<close>

theorem not_returned_whole_counterexample:
  "re_match EVENT_TYPE_RE (ascii ''DNS-TUNNEL-EXFIL'') = Some (ascii ''DNS-TUNNEL'')
   \<and> extract_event_type (Text (ascii ''DNS-TUNNEL-EXFIL'')) = Inr (ascii ''DNS-TUNNEL'')
   \<and> extract_event_type (Text (ascii ''DNS-TUNNEL-EXFIL'')) \<noteq> Inr (ascii ''DNS-TUNNEL-EXFIL'')"
  by code_simp

text \<open>
  Claim C3. A signature that does not start with an uppercase letter (the empty signature
  included) is labelled \<open>UNKNOWN\<close>, as is \<open>malware.exe executed\<close>.
\<close>

theorem extract_event_type_unknown:
  "(s = [] \<or> \<not> is_upper (hd s) \<longrightarrow> extract_event_type (Text s) = Inr UNKNOWN)
   \<and> extract_event_type (Text (ascii ''malware.exe executed'')) = Inr (ascii ''UNKNOWN'')"
proof (intro conjI impI)
  assume "s = [] \<or> \<not> is_upper (hd s)"
  then show "extract_event_type (Text s) = Inr UNKNOWN"
    by (cases s) (auto simp: re_match_event_type)
next
  show "extract_event_type (Text (ascii ''malware.exe executed'')) = Inr (ascii ''UNKNOWN'')"
    by code_simp
qed

theorem extract_event_type_unknown_witness:
  "\<not> is_upper (hd (ascii ''9 failed logins''))
   \<and> extract_event_type (Text (ascii ''9 failed logins'')) = Inr UNKNOWN"
proof -
  have h: "\<not> is_upper (hd (ascii ''9 failed logins''))" by (simp add: ascii_def is_upper_def)
  with extract_event_type_unknown[of "ascii ''9 failed logins''"] show ?thesis by blast
qed

text \<open>
  Claim C4. On every string the classifier returns a label and raises nothing, the empty
  string and strings without letters included; as a function of its argument alone it
  returns equal labels for equal signatures. The search behind it, \<open>re_run\<close>, is a total
  recursive function.
\<close>

theorem extract_event_type_total:
  "(\<exists>label. extract_event_type (Text s) = Inr label)
   \<and> (s = t \<longrightarrow> extract_event_type (Text s) = extract_event_type (Text t))
   \<and> extract_event_type (Text []) = Inr UNKNOWN
   \<and> extract_event_type (Text (ascii ''#!? 42 ...'')) = Inr UNKNOWN"
proof (intro conjI impI)
  show "\<exists>label. extract_event_type (Text s) = Inr label"
    by (simp add: re_match_event_type split: list.split)
  show "extract_event_type (Text []) = Inr UNKNOWN" by (simp add: re_match_event_type)
  show "extract_event_type (Text (ascii ''#!? 42 ...'')) = Inr UNKNOWN" by code_simp
qed simp

theorem extract_event_type_total_witness:
  "(\<exists>label. extract_event_type (Text (ascii ''Login OK'')) = Inr label)
   \<and> extract_event_type (Text (ascii ''Login OK'')) = extract_event_type (Text (ascii ''Login OK''))"
  using extract_event_type_total[of "ascii ''Login OK''" "ascii ''Login OK''"] by blast

text \<open>
  Claim C10. The label \<open>UNKNOWN\<close> does not tell a failed match from a successful one: a
  signature that is \<open>UNKNOWN\<close> followed by nothing, or by a character that is neither an
  uppercase letter nor a hyphen, matches the pattern and is labelled \<open>UNKNOWN\<close>, the
  same label as the unmatched \<open>malware.exe executed\<close>. For every signature the label is
  the sentinel or a non-empty prefix of the signature.
\<close>

theorem unknown_sentinel_ambiguous:
  "(t = [] \<or> (\<not> is_upper (hd t) \<and> hd t \<noteq> hyphen) \<longrightarrow>
      re_match EVENT_TYPE_RE (UNKNOWN @ t) = Some UNKNOWN
      \<and> extract_event_type (Text (UNKNOWN @ t)) = Inr UNKNOWN)
   \<and> re_match EVENT_TYPE_RE (ascii ''UNKNOWN threat detected'') = Some UNKNOWN
   \<and> re_match EVENT_TYPE_RE (ascii ''malware.exe executed'') = None
   \<and> extract_event_type (Text (ascii ''UNKNOWN threat detected'')) =
       extract_event_type (Text (ascii ''malware.exe executed''))
   \<and> (\<exists>r. extract_event_type (Text s) = Inr r \<and> (r = UNKNOWN \<or> (r \<noteq> [] \<and> prefix r s)))"
proof (intro conjI impI)
  assume t: "t = [] \<or> (\<not> is_upper (hd t) \<and> hd t \<noteq> hyphen)"
  have "list_all is_upper (ascii ''NKNOWN'')" by (simp add: ascii_def is_upper_def)
  then have g: "greedy_tail (ascii ''NKNOWN'' @ t) = ascii ''NKNOWN''"
    using t by (rule greedy_tail_all)
  have u: "UNKNOWN = of_char CHR ''U'' # ascii ''NKNOWN''"
    by (simp add: UNKNOWN_def ascii_def)
  have iu: "is_upper (of_char CHR ''U'')" by (simp add: is_upper_def)
  show "re_match EVENT_TYPE_RE (UNKNOWN @ t) = Some UNKNOWN"
    unfolding u re_match_event_type using g iu by simp
  then show "extract_event_type (Text (UNKNOWN @ t)) = Inr UNKNOWN" by simp
next
  show "re_match EVENT_TYPE_RE (ascii ''UNKNOWN threat detected'') = Some UNKNOWN" by code_simp
  show "re_match EVENT_TYPE_RE (ascii ''malware.exe executed'') = None" by code_simp
  show "extract_event_type (Text (ascii ''UNKNOWN threat detected'')) =
       extract_event_type (Text (ascii ''malware.exe executed''))" by code_simp
  show "\<exists>r. extract_event_type (Text s) = Inr r \<and> (r = UNKNOWN \<or> (r \<noteq> [] \<and> prefix r s))"
    using greedy_tail_prefix by (cases s) (auto simp: re_match_event_type)
qed

theorem unknown_sentinel_ambiguous_witness:
  "\<not> is_upper (hd (ascii '': no rule matched'')) \<and> hd (ascii '': no rule matched'') \<noteq> hyphen
   \<and> re_match EVENT_TYPE_RE (UNKNOWN @ ascii '': no rule matched'') = Some UNKNOWN
   \<and> extract_event_type (Text (UNKNOWN @ ascii '': no rule matched'')) = Inr UNKNOWN"
proof -
  have h: "\<not> is_upper (hd (ascii '': no rule matched'')) \<and> hd (ascii '': no rule matched'') \<noteq> hyphen"
    by (simp add: ascii_def is_upper_def hyphen_def)
  with unknown_sentinel_ambiguous[of "ascii '': no rule matched''"] show ?thesis by blast
qed

section \<open>Tables\<close>

lemma traverse_length: "traverse f xs = Inr ys \<Longrightarrow> length ys = length xs"
  by (induction xs arbitrary: ys) (auto split: sum.splits)


lemma cell_at_update:
  "cell_at (AList.update c v r) c' = (if c' = c then v else cell_at r c')"
  by (simp add: cell_at_def update_conv')

lemma getitem_Inr:
  "getitem df c = Inr col \<Longrightarrow> c \<in> set (columns df) \<and> col = map (\<lambda>r. cell_at r c) (rows df)"
  by (auto simp: getitem_def split: if_splits)

lemma rows_setitem:
  "length values = length (rows df) \<Longrightarrow>
   length (rows (setitem df c values)) = length (rows df)"
  by (simp add: setitem_def)

lemma rows_setitem_nth:
  "length values = length (rows df) \<Longrightarrow> i < length (rows df) \<Longrightarrow>
   rows (setitem df c values) ! i = AList.update c (values ! i) (rows df ! i)"
  by (simp add: setitem_def)

lemma columns_setitem: "set (columns (setitem df c values)) = insert c (set (columns df))"
  by (auto simp: setitem_def)

lemma cell_setitem:
  "length values = length (rows df) \<Longrightarrow> i < length (rows df) \<Longrightarrow>
   cell_at (rows (setitem df c values) ! i) c' =
     (if c' = c then values ! i else cell_at (rows df ! i) c')"
  by (simp add: rows_setitem_nth cell_at_update)

lemma getitem_setitem:
  assumes "length values = length (rows df)"
  shows "getitem (setitem df c values) c = Inr values"
proof -
  have "map (\<lambda>r. cell_at r c) (rows (setitem df c values)) = values"
    using assms by (intro nth_equalityI) (simp_all add: rows_setitem cell_setitem)
  then show ?thesis by (simp add: getitem_def columns_setitem)
qed




section \<open>The steps of the script\<close>





lemma rows_DataFrame: "length (rows (DataFrame events)) = length events"
  by (simp add: DataFrame_def)

lemma columns_DataFrame: "columns (DataFrame events) = column_names events"
  by (simp add: DataFrame_def)




lemma analyze_security_events_Inr:
  assumes "analyze_security_events world filename = Inr (df, event_counts)"
  obtains events types where
    "files world filename = Events events"
    "ascii ''signature'' \<in> set (column_names events)"
    "traverse extract_event_type
       (map (\<lambda>r. cell_at r (ascii ''signature'')) (rows (DataFrame events))) = Inr types"
    "length types = length events"
    "df = setitem (DataFrame events) (ascii ''event_type'') (map Text types)"
    "event_counts = value_counts (map Text types)"
proof -
  from assms obtain df0 where l: "load_json_data world filename = Inr df0"
    by (auto simp: analyze_security_events_def split: sum.splits)
  then obtain events where f: "files world filename = Events events" and d: "df0 = DataFrame events"
    by (auto simp: load_json_data_def split: input_file.splits)
  from assms l d obtain signatures types where
    s: "getitem (DataFrame events) (ascii ''signature'') = Inr signatures" and
    t: "traverse extract_event_type signatures = Inr types" and
    r: "\<exists>col. getitem (setitem (DataFrame events) (ascii ''event_type'') (map Text types)) (ascii ''event_type'') = Inr col
          \<and> df = setitem (DataFrame events) (ascii ''event_type'') (map Text types)
          \<and> event_counts = value_counts col"
    by (auto simp: analyze_security_events_def Let_def split: sum.splits)
  from s have sc: "ascii ''signature'' \<in> set (column_names events)"
    and sv: "signatures = map (\<lambda>r. cell_at r (ascii ''signature'')) (rows (DataFrame events))"
    using getitem_Inr[OF s] by (simp_all add: columns_DataFrame)
  have lt: "length types = length events"
    using traverse_length[OF t] sv by (simp add: rows_DataFrame)
  then have "getitem (setitem (DataFrame events) (ascii ''event_type'') (map Text types)) (ascii ''event_type'') = Inr (map Text types)"
    by (intro getitem_setitem) (simp add: rows_DataFrame)
  with r have "df = setitem (DataFrame events) (ascii ''event_type'') (map Text types)"
    "event_counts = value_counts (map Text types)" by auto
  then show ?thesis using that f sc t sv lt by simp
qed

lemma sum_tally: "sum_list (map snd (tally v t)) = Suc (sum_list (map snd t))"
  by (induction v t rule: tally.induct) auto

lemma sum_foldl_tally:
  "sum_list (map snd (foldl (\<lambda>counts v. tally v counts) t xs)) = sum_list (map snd t) + length xs"
  by (induction xs arbitrary: t) (simp_all add: sum_tally)

lemma sum_insort_key:
  fixes xs :: "('a \<times> nat) list"
  shows "sum_list (map snd (insort_key f x xs)) = snd x + sum_list (map snd xs)"
  by (induction xs) auto

lemma sum_sort_key:
  fixes xs :: "('a \<times> nat) list"
  shows "sum_list (map snd (sort_key f xs)) = sum_list (map snd xs)"
  by (induction xs) (simp_all add: sum_insort_key)

lemma sum_value_counts:
  "sum_list (map snd (value_counts xs)) = length (filter (\<lambda>v. v \<noteq> Missing) xs)"
  by (simp add: value_counts_def sum_sort_key sum_foldl_tally)



section \<open>Properties of the pipeline\<close>






text \<open>
  Claim C6. When the analysis of an array of event records succeeds, the counts of the
  frequency table over \<open>event_type\<close> add up to the number of records, which is also the
  number of rows of the table.
\<close>

theorem value_counts_conservation:
  assumes "files world filename = Events events"
    and "analyze_security_events world filename = Inr (df, event_counts)"
  shows "sum_list (map snd event_counts) = length events \<and> length (rows df) = length events"
proof -
  from assms(2) obtain events' types where
    "files world filename = Events events'" and
    lt: "length types = length events'" and
    d: "df = setitem (DataFrame events') (ascii ''event_type'') (map Text types)" and
    c: "event_counts = value_counts (map Text types)"
    by (rule analyze_security_events_Inr)
  with assms(1) have ev: "events' = events" by simp
  have "filter (\<lambda>v. v \<noteq> Missing) (map Text types) = map Text types"
    by (induction types) auto
  then have "sum_list (map snd event_counts) = length types"
    using c by (simp add: sum_value_counts)
  moreover have "length (rows df) = length events"
    using d lt ev by (simp add: rows_setitem rows_DataFrame)
  ultimately show ?thesis using lt ev by simp
qed

theorem value_counts_conservation_witness:
  "map_sum id (\<lambda>(df, event_counts). (event_counts, length (rows df)))
     (analyze_security_events
        (world_with (Events [portscan_event, injection_event, portscan_event]))
        (ascii ''events.json'')) =
   Inr ([(Text (ascii ''PORTSCAN''), 2), (Text (ascii ''SQL-INJECTION''), 1)], 3)"
proof -
  let ?w = "world_with (Events [portscan_event, injection_event, portscan_event])"
  let ?r = "analyze_security_events ?w (ascii ''events.json'')"
  have v: "map_sum id (\<lambda>(df, event_counts). event_counts) ?r =
           Inr [(Text (ascii ''PORTSCAN''), 2), (Text (ascii ''SQL-INJECTION''), 1)]"
    by code_simp
  then obtain df event_counts where r: "?r = Inr (df, event_counts)"
    by (cases ?r) auto
  have e: "files ?w (ascii ''events.json'') = Events [portscan_event, injection_event, portscan_event]"
    by (simp add: world_with_def)
  from value_counts_conservation[OF e r] have "length (rows df) = 3" by simp
  then show ?thesis using v r by simp
qed






subsection \<open>The handlers\<close>







end
